theory Spec2Isabelle
  imports Complex_Main
begin

section \<open>Python values used by \<open>text_to_qr.py\<close>\<close>

text \<open>
  A Python \<open>str\<close> is a sequence of Unicode code points and a \<open>bytes\<close> object a sequence
  of integers in \<open>range(256)\<close>; both are modelled as lists of naturals. \<open>len\<close> is
  \<open>length\<close> on either. String literals of the source are written with \<open>lit\<close>.
\<close>

type_synonym str = "nat list"
type_synonym bytes = "nat list"

definition lit :: "string \<Rightarrow> str" where
  "lit s = map of_char s"

text \<open>
  The exceptions that can leave the methods of \<open>TextToQRCode\<close>: a missing dictionary
  key, the two codec errors, and whatever the \<open>qrcode\<close> library or \<open>Image.save\<close>
  raise (both external, kept abstract).
\<close>

datatype error = KeyError | UnicodeEncodeError | UnicodeDecodeError | QRCodeError | SaveError

subsection \<open>\<open>str.encode('utf-8')\<close>\<close>

text \<open>
  A code point is encodable when it is a Unicode scalar value: below \<open>0x110000\<close> and not
  a surrogate. Python raises \<open>UnicodeEncodeError\<close> on a lone surrogate; values from
  \<open>0x110000\<close> on are not elements of any Python string and get the same error here.
\<close>

definition encodable :: "nat \<Rightarrow> bool" where
  "encodable c \<longleftrightarrow> c < 0x110000 \<and> \<not> (0xD800 \<le> c \<and> c \<le> 0xDFFF)"

definition utf8_char :: "nat \<Rightarrow> bytes" where
  "utf8_char c =
     (if c < 0x80 then [c]
      else if c < 0x800 then [0xC0 + c div 0x40, 0x80 + c mod 0x40]
      else if c < 0x10000 then
        [0xE0 + c div 0x1000, 0x80 + c div 0x40 mod 0x40, 0x80 + c mod 0x40]
      else
        [0xF0 + c div 0x40000, 0x80 + c div 0x1000 mod 0x40,
         0x80 + c div 0x40 mod 0x40, 0x80 + c mod 0x40])"

fun encode_utf8 :: "str \<Rightarrow> error + bytes" where
  "encode_utf8 [] = Inr []"
| "encode_utf8 (c # cs) =
     (if encodable c then
        (case encode_utf8 cs of Inl e \<Rightarrow> Inl e | Inr bs \<Rightarrow> Inr (utf8_char c @ bs))
      else Inl UnicodeEncodeError)"

subsection \<open>\<open>bytes.decode('utf-8')\<close>\<close>

text \<open>
  The strict decoder: it accepts exactly the well-formed byte sequences of the Unicode
  standard (no overlong forms, no surrogates, nothing above \<open>0x10FFFF\<close>, no truncated
  character) and raises \<open>UnicodeDecodeError\<close> on anything else.
\<close>

definition cont :: "nat \<Rightarrow> bool" where
  "cont b \<longleftrightarrow> 0x80 \<le> b \<and> b < 0xC0"

definition second3 :: "nat \<Rightarrow> nat \<Rightarrow> bool" where
  "second3 b0 b1 \<longleftrightarrow>
     (if b0 = 0xE0 then 0xA0 \<le> b1 \<and> b1 < 0xC0
      else if b0 = 0xED then 0x80 \<le> b1 \<and> b1 < 0xA0
      else cont b1)"

definition second4 :: "nat \<Rightarrow> nat \<Rightarrow> bool" where
  "second4 b0 b1 \<longleftrightarrow>
     (if b0 = 0xF0 then 0x90 \<le> b1 \<and> b1 < 0xC0
      else if b0 = 0xF4 then 0x80 \<le> b1 \<and> b1 < 0x90
      else cont b1)"

definition cons_char :: "nat \<Rightarrow> error + str \<Rightarrow> error + str" where
  "cons_char c r = (case r of Inl e \<Rightarrow> Inl e | Inr cs \<Rightarrow> Inr (c # cs))"

fun decode_utf8 :: "bytes \<Rightarrow> error + str" where
  "decode_utf8 [] = Inr []"
| "decode_utf8 (b0 # bs) =
     (if b0 < 0x80 then cons_char b0 (decode_utf8 bs)
      else if 0xC2 \<le> b0 \<and> b0 < 0xE0 then
        (case bs of
           b1 # r \<Rightarrow>
             if cont b1
             then cons_char ((b0 - 0xC0) * 0x40 + (b1 - 0x80)) (decode_utf8 r)
             else Inl UnicodeDecodeError
         | _ \<Rightarrow> Inl UnicodeDecodeError)
      else if 0xE0 \<le> b0 \<and> b0 < 0xF0 then
        (case bs of
           b1 # b2 # r \<Rightarrow>
             if second3 b0 b1 \<and> cont b2
             then cons_char ((b0 - 0xE0) * 0x1000 + (b1 - 0x80) * 0x40 + (b2 - 0x80))
                    (decode_utf8 r)
             else Inl UnicodeDecodeError
         | _ \<Rightarrow> Inl UnicodeDecodeError)
      else if 0xF0 \<le> b0 \<and> b0 < 0xF5 then
        (case bs of
           b1 # b2 # b3 # r \<Rightarrow>
             if second4 b0 b1 \<and> cont b2 \<and> cont b3
             then cons_char ((b0 - 0xF0) * 0x40000 + (b1 - 0x80) * 0x1000
                             + (b2 - 0x80) * 0x40 + (b3 - 0x80))
                    (decode_utf8 r)
             else Inl UnicodeDecodeError
         | _ \<Rightarrow> Inl UnicodeDecodeError)
      else Inl UnicodeDecodeError)"


subsection \<open>Slices, number formatting, \<open>math.ceil\<close>\<close>

text \<open>
  \<open>b[start:end]\<close> for indices that are never negative: empty when \<open>end \<le> start\<close> or
  \<open>start\<close> is past the end, cut at the end of \<open>b\<close> otherwise.
\<close>

definition slice :: "bytes \<Rightarrow> nat \<Rightarrow> nat \<Rightarrow> bytes" where
  "slice b start end = take (end - start) (drop start b)"

text \<open>The decimal digits of a number, as an f-string prints \<open>{i+1}\<close>.\<close>

fun str_of_nat :: "nat \<Rightarrow> str" where
  "str_of_nat n =
     (if n < 10 then [0x30 + n] else str_of_nat (n div 10) @ [0x30 + n mod 10])"

declare str_of_nat.simps [simp del]

text \<open>
  \<open>math.ceil(a / b)\<close>: true division, then the ceiling. Python computes the quotient in
  double precision; the rounded quotient has the same ceiling as the exact one as long
  as \<open>a < 2^53\<close>, which the length of a \<open>bytes\<close> object in memory always is, so the
  model takes the exact quotient. The divisor is always a budget of the table, never
  zero, so the division does not raise.
\<close>

definition ceil_div :: "nat \<Rightarrow> nat \<Rightarrow> nat" where
  "ceil_div a b = nat \<lceil>real a / real b\<rceil>"

section \<open>The class \<open>TextToQRCode\<close>\<close>

record converter =
  error_correction_level :: string
  box_size :: int
  border :: int

text \<open>\<open>__init__\<close> with its defaults \<open>'M'\<close>, 10 and 4 stores its arguments unchecked.\<close>

definition init :: "string \<Rightarrow> int \<Rightarrow> int \<Rightarrow> converter" where
  "init error_correction bs bd =
     \<lparr>error_correction_level = error_correction, box_size = bs, border = bd\<rparr>"

definition default_converter :: converter where
  "default_converter = init ''M'' 10 4"

definition MAX_BYTES_PER_QR :: "string \<rightharpoonup> nat" where
  "MAX_BYTES_PER_QR = [''L'' \<mapsto> 2900, ''M'' \<mapsto> 2300, ''Q'' \<mapsto> 1600, ''H'' \<mapsto> 1200]"

datatype ec_constant = ERROR_CORRECT_L | ERROR_CORRECT_M | ERROR_CORRECT_Q | ERROR_CORRECT_H

definition error_correction_map :: "string \<rightharpoonup> ec_constant" where
  "error_correction_map =
     [''L'' \<mapsto> ERROR_CORRECT_L, ''M'' \<mapsto> ERROR_CORRECT_M,
      ''Q'' \<mapsto> ERROR_CORRECT_Q, ''H'' \<mapsto> ERROR_CORRECT_H]"

subsection \<open>\<open>split_text\<close>\<close>

text \<open>
  The inner \<open>while\<close> loop of \<open>split_text\<close>: while \<open>end\<close> is before the end of the
  bytes, try to decode \<open>text_bytes[start:end]\<close>; leave the loop when that succeeds,
  step \<open>end\<close> back by one byte when it raises. The value is \<open>end\<close> after the loop.
\<close>

function adjust_end :: "bytes \<Rightarrow> nat \<Rightarrow> nat \<Rightarrow> nat" where
  "adjust_end text_bytes start end =
     (if end < length text_bytes then
        (case decode_utf8 (slice text_bytes start end) of
           Inr _ \<Rightarrow> end
         | Inl _ \<Rightarrow> adjust_end text_bytes start (end - 1))
      else end)"
  by pat_completeness auto
termination
proof (relation "measure (\<lambda>(text_bytes, start, end). end)")
  show "wf (measure (\<lambda>(text_bytes, start, end). end))"
    by simp
next
  fix b :: bytes and s n :: nat and e :: error
  assume "decode_utf8 (slice b s n) = Inl e"
  then have "n \<noteq> 0"
    by (cases n) (simp_all add: slice_def)
  then show "((b, s, n - 1), (b, s, n)) \<in> measure (\<lambda>(text_bytes, start, end). end)"
    by simp
qed

declare adjust_end.simps [simp del]

text \<open>The marker \<open>f"[{i+1}/{num_parts}]\n"\<close> put in front of a part.\<close>

definition part_prefix :: "nat \<Rightarrow> nat \<Rightarrow> str" where
  "part_prefix i num_parts =
     lit ''['' @ str_of_nat (i + 1) @ lit ''/'' @ str_of_nat num_parts @ lit '']'' @ [0x0A]"

text \<open>
  The \<open>for i in range(num_parts)\<close> loop, as recursion over the remaining indices, with
  the loop variables \<open>start\<close> and \<open>parts\<close>. The decode after the inner loop is the one
  outside any \<open>try\<close>: its error leaves \<open>split_text\<close>.
\<close>

fun split_loop ::
  "bytes \<Rightarrow> nat \<Rightarrow> nat \<Rightarrow> nat list \<Rightarrow> nat \<Rightarrow> str list \<Rightarrow> error + str list" where
  "split_loop text_bytes max_bytes num_parts [] start parts = Inr parts"
| "split_loop text_bytes max_bytes num_parts (i # is) start parts =
     (let end = adjust_end text_bytes start
                  (min (start + max_bytes) (length text_bytes))
      in case decode_utf8 (slice text_bytes start end) of
           Inl e \<Rightarrow> Inl e
         | Inr part_text \<Rightarrow>
             split_loop text_bytes max_bytes num_parts is end
               (parts @ [if num_parts > 1 then part_prefix i num_parts @ part_text
                         else part_text]))"

definition split_text :: "converter \<Rightarrow> str \<Rightarrow> error + str list" where
  "split_text self text =
     (case MAX_BYTES_PER_QR (error_correction_level self) of
        None \<Rightarrow> Inl KeyError
      | Some max_bytes \<Rightarrow>
          (case encode_utf8 text of
             Inl e \<Rightarrow> Inl e
           | Inr text_bytes \<Rightarrow>
               if length text_bytes \<le> max_bytes then Inr [text]
               else
                 (let num_parts = ceil_div (length text_bytes) max_bytes
                  in split_loop text_bytes max_bytes num_parts [0..<num_parts] 0 [])))"

subsection \<open>\<open>get_text_info\<close>\<close>

record text_info =
  char_count :: nat
  byte_count :: nat
  max_bytes_per_qr :: nat
  num_qrcodes :: nat
  error_correction :: string

definition get_text_info :: "converter \<Rightarrow> str \<Rightarrow> error + text_info" where
  "get_text_info self text =
     (case encode_utf8 text of
        Inl e \<Rightarrow> Inl e
      | Inr text_bytes \<Rightarrow>
          (case MAX_BYTES_PER_QR (error_correction_level self) of
             None \<Rightarrow> Inl KeyError
           | Some max_bytes \<Rightarrow>
               Inr \<lparr>char_count = length text,
                    byte_count = length text_bytes,
                    max_bytes_per_qr = max_bytes,
                    num_qrcodes = ceil_div (length text_bytes) max_bytes,
                    error_correction = error_correction_level self\<rparr>))"

subsection \<open>The methods that call the \<open>qrcode\<close> library\<close>

text \<open>
  The library is a parameter \<open>qr\<close>: from the error-correction constant, the box size,
  the border and the text it gives an image or raises. \<open>Image.save\<close> is a parameter
  \<open>save\<close> on an abstract file system.
\<close>

definition generate_qrcode ::
  "(ec_constant \<Rightarrow> int \<Rightarrow> int \<Rightarrow> str \<Rightarrow> error + 'img) \<Rightarrow> converter \<Rightarrow> str \<Rightarrow> error + 'img" where
  "generate_qrcode qr self text =
     (case error_correction_map (error_correction_level self) of
        None \<Rightarrow> Inl KeyError
      | Some ec \<Rightarrow> qr ec (box_size self) (border self) text)"

fun images_loop ::
  "(ec_constant \<Rightarrow> int \<Rightarrow> int \<Rightarrow> str \<Rightarrow> error + 'img) \<Rightarrow> converter \<Rightarrow> str list
     \<Rightarrow> ('img \<times> str) list \<Rightarrow> error + ('img \<times> str) list" where
  "images_loop qr self [] images = Inr images"
| "images_loop qr self (part # rest) images =
     (case generate_qrcode qr self part of
        Inl e \<Rightarrow> Inl e
      | Inr img \<Rightarrow> images_loop qr self rest (images @ [(img, part)]))"

definition generate_qrcode_images ::
  "(ec_constant \<Rightarrow> int \<Rightarrow> int \<Rightarrow> str \<Rightarrow> error + 'img) \<Rightarrow> converter \<Rightarrow> str
     \<Rightarrow> error + ('img \<times> str) list" where
  "generate_qrcode_images qr self text =
     (case split_text self text of
        Inl e \<Rightarrow> Inl e
      | Inr text_parts \<Rightarrow> images_loop qr self text_parts [])"

text \<open>
  \<open>text_to_qrcode\<close>: the loop over \<open>enumerate(text_parts)\<close> with the file system passed
  along. An exception leaves the files written so far in place.
\<close>

definition part_filename :: "str \<Rightarrow> nat \<Rightarrow> nat \<Rightarrow> str" where
  "part_filename output_prefix i n =
     (if n > 1
      then output_prefix @ lit ''_'' @ str_of_nat (i + 1) @ lit ''_of_'' @ str_of_nat n
             @ lit ''.png''
      else output_prefix @ lit ''.png'')"

fun save_loop ::
  "(ec_constant \<Rightarrow> int \<Rightarrow> int \<Rightarrow> str \<Rightarrow> error + 'img) \<Rightarrow> ('img \<Rightarrow> str \<Rightarrow> 'fs \<Rightarrow> error + 'fs)
     \<Rightarrow> converter \<Rightarrow> str \<Rightarrow> nat \<Rightarrow> (nat \<times> str) list \<Rightarrow> str list \<Rightarrow> 'fs
     \<Rightarrow> (error + str list) \<times> 'fs" where
  "save_loop qr save self output_prefix n [] image_paths fs = (Inr image_paths, fs)"
| "save_loop qr save self output_prefix n ((i, part) # rest) image_paths fs =
     (case generate_qrcode qr self part of
        Inl e \<Rightarrow> (Inl e, fs)
      | Inr img \<Rightarrow>
          (let filename = part_filename output_prefix i n
           in case save img filename fs of
                Inl e \<Rightarrow> (Inl e, fs)
              | Inr fs' \<Rightarrow>
                  save_loop qr save self output_prefix n rest (image_paths @ [filename]) fs'))"

definition text_to_qrcode ::
  "(ec_constant \<Rightarrow> int \<Rightarrow> int \<Rightarrow> str \<Rightarrow> error + 'img) \<Rightarrow> ('img \<Rightarrow> str \<Rightarrow> 'fs \<Rightarrow> error + 'fs)
     \<Rightarrow> converter \<Rightarrow> str \<Rightarrow> str \<Rightarrow> 'fs \<Rightarrow> (error + str list) \<times> 'fs" where
  "text_to_qrcode qr save self text output_prefix fs =
     (case split_text self text of
        Inl e \<Rightarrow> (Inl e, fs)
      | Inr text_parts \<Rightarrow>
          save_loop qr save self output_prefix (length text_parts)
            (zip [0..<length text_parts] text_parts) [] fs)"

section \<open>Functions used to state and prove the properties\<close>

text \<open>
  The encoder without its error branch, the number of whole characters of a text whose
  encoding fits into \<open>m\<close> bytes, the successive runs of characters obtained by taking
  that many characters \<open>n\<close> times, and the marker put in front of part \<open>i\<close>.
\<close>

definition utf8 :: "str \<Rightarrow> bytes" where
  "utf8 t = concat (map utf8_char t)"

fun fit :: "nat \<Rightarrow> str \<Rightarrow> nat" where
  "fit m [] = 0"
| "fit m (c # cs) =
     (if length (utf8_char c) \<le> m then Suc (fit (m - length (utf8_char c)) cs) else 0)"

fun chunks :: "nat \<Rightarrow> nat \<Rightarrow> str \<Rightarrow> str list" where
  "chunks m 0 t = []"
| "chunks m (Suc n) t = take (fit m t) t # chunks m n (drop (fit m t) t)"

abbreviation fitlen :: "nat \<Rightarrow> str \<Rightarrow> nat" where
  "fitlen m u \<equiv> length (utf8 (take (fit m u) u))"

definition mark :: "nat \<Rightarrow> nat \<times> str \<Rightarrow> str" where
  "mark n = (\<lambda>(i, p). if n > 1 then part_prefix i n @ p else p)"

text \<open>The number that a string of decimal digits denotes.\<close>

definition nat_of_str :: "str \<Rightarrow> nat" where
  "nat_of_str s = foldl (\<lambda>v d. 10 * v + (d - 0x30)) 0 s"

section \<open>Arithmetic and the capacity table\<close>

lemma up_div:
  fixes a b :: nat
  assumes b: "0 < b"
  shows "(a + b - 1) div b = (if a mod b = 0 then a div b else a div b + 1)"
proof -
  define q where "q = a div b"
  define r where "r = a mod b"
  have a: "a = b * q + r" and r: "r < b"
    using b by (simp_all add: q_def r_def)
  show ?thesis
  proof (cases "r = 0")
    case True
    have "(a + b - 1) div b = q"
    proof (rule div_nat_eqI)
      show "b * q \<le> a + b - 1" using a b by linarith
      have "b * Suc q = b * q + b" by simp
      then show "a + b - 1 < b * Suc q" using a b True by linarith
    qed
    then show ?thesis using True by (simp add: q_def r_def)
  next
    case False
    have "(a + b - 1) div b = Suc q"
    proof (rule div_nat_eqI)
      have "b * Suc q = b * q + b" by simp
      then show "b * Suc q \<le> a + b - 1" using a False by linarith
      have "b * Suc (Suc q) = b * q + b + b" by simp
      then show "a + b - 1 < b * Suc (Suc q)" using a r by linarith
    qed
    then show ?thesis using False by (simp add: q_def r_def)
  qed
qed

lemma ceil_div_eq: "0 < b \<Longrightarrow> ceil_div a b = (a + b - 1) div b"
proof -
  assume b: "0 < b"
  have "\<lceil>real a / real b\<rceil> = \<lceil>real_of_int (int a) / real_of_int (int b)\<rceil>"
    by simp
  also have "\<dots> = - ((- int a) div int b)"
    by (simp only: ceiling_divide_eq_div)
  also have "\<dots> = (if int a mod int b = 0 then int a div int b else int a div int b + 1)"
    using b by (simp add: zdiv_zminus1_eq_if)
  also have "\<dots> = int (if a mod b = 0 then a div b else a div b + 1)"
    by (simp add: of_nat_div flip: of_nat_mod)
  finally have "\<lceil>real a / real b\<rceil> = int ((a + b - 1) div b)"
    using b by (simp only: up_div)
  then show ?thesis by (simp only: ceil_div_def nat_int)
qed


lemma ceil_div_code [code]: "ceil_div a b = (if b = 0 then 0 else (a + b - 1) div b)"
  by (cases "b = 0") (simp_all add: ceil_div_def ceil_div_eq [unfolded ceil_div_def])

text \<open>\<open>str_of_nat\<close> prints a number in decimal: reading the digits back gives the number.\<close>

lemma str_of_nat_decimal: "nat_of_str (str_of_nat n) = n"
proof (induction n rule: str_of_nat.induct)
  case (1 n)
  show ?case
  proof (cases "n < 10")
    case True
    then show ?thesis
      by (subst str_of_nat.simps) (simp add: nat_of_str_def)
  next
    case False
    then have "nat_of_str (str_of_nat n) = 10 * nat_of_str (str_of_nat (n div 10)) + n mod 10"
      by (subst str_of_nat.simps) (simp add: nat_of_str_def)
    then show ?thesis
      using "1.IH" [OF False] by simp
  qed
qed

lemma MAX_BYTES_PER_QR_Some:
  "MAX_BYTES_PER_QR l = Some m \<longleftrightarrow>
     l = ''L'' \<and> m = 2900 \<or> l = ''M'' \<and> m = 2300 \<or> l = ''Q'' \<and> m = 1600 \<or> l = ''H'' \<and> m = 1200"
  by (auto simp: MAX_BYTES_PER_QR_def)

lemma MAX_BYTES_PER_QR_None:
  "MAX_BYTES_PER_QR l = None \<longleftrightarrow> l \<notin> {''L'', ''M'', ''Q'', ''H''}"
  by (simp add: MAX_BYTES_PER_QR_def)

section \<open>The codec: decoding an encoded text and its prefixes\<close>

lemma utf8_simps [simp]:
  "utf8 [] = []" "utf8 (c # cs) = utf8_char c @ utf8 cs" "utf8 (xs @ ys) = utf8 xs @ utf8 ys"
  by (simp_all add: utf8_def)

lemma encode_utf8_eq:
  "encode_utf8 t = (if \<forall>c\<in>set t. encodable c then Inr (utf8 t) else Inl UnicodeEncodeError)"
  by (induction t) simp_all

lemma encode_utf8_iff:
  "encode_utf8 t = Inr b \<longleftrightarrow> (\<forall>c\<in>set t. encodable c) \<and> b = utf8 t"
  by (auto simp: encode_utf8_eq)

lemma length_utf8_char: "length (utf8_char c) \<in> {1, 2, 3, 4}"
  by (simp add: utf8_char_def)

lemma length_utf8_char_pos [simp]: "0 < length (utf8_char c)"
  by (simp add: utf8_char_def)

lemma length_utf8_char_le: "length (utf8_char c) \<le> 4"
  by (simp add: utf8_char_def)

lemma decode2:
  assumes "0xC2 \<le> b0" "b0 < 0xE0" "cont b1"
  shows "decode_utf8 (b0 # b1 # b) = cons_char ((b0 - 0xC0) * 0x40 + (b1 - 0x80)) (decode_utf8 b)"
  using assms by simp

lemma decode3:
  assumes "0xE0 \<le> b0" "b0 < 0xF0" "second3 b0 b1" "cont b2"
  shows "decode_utf8 (b0 # b1 # b2 # b) =
           cons_char ((b0 - 0xE0) * 0x1000 + (b1 - 0x80) * 0x40 + (b2 - 0x80)) (decode_utf8 b)"
  using assms by simp

lemma decode4:
  assumes "0xF0 \<le> b0" "b0 < 0xF5" "second4 b0 b1" "cont b2" "cont b3"
  shows "decode_utf8 (b0 # b1 # b2 # b3 # b) =
           cons_char ((b0 - 0xF0) * 0x40000 + (b1 - 0x80) * 0x1000 + (b2 - 0x80) * 0x40
                      + (b3 - 0x80)) (decode_utf8 b)"
  using assms by simp

lemma cont_low6 [simp]: "cont (0x80 + x mod 0x40)"
  by (simp add: cont_def)

lemma split64:
  fixes c :: nat
  obtains x r where "c = 0x40 * x + r" "r < 0x40" "c div 0x40 = x" "c mod 0x40 = r"
  by (metis mod_less_divisor mult_div_mod_eq zero_less_numeral)

lemma div_4096: "(c::nat) div 0x1000 = c div 0x40 div 0x40"
  using div_mult2_eq [of c "0x40" "0x40"] by simp

lemma div_262144: "(c::nat) div 0x40000 = c div 0x40 div 0x40 div 0x40"
  using div_mult2_eq [of c "0x1000" "0x40"] by (simp add: div_4096)

lemma decode_char:
  assumes "encodable c"
  shows "decode_utf8 (utf8_char c @ b) = cons_char c (decode_utf8 b)"
proof -
  obtain x r0 where x: "c = 0x40 * x + r0" "r0 < 0x40" "c div 0x40 = x" "c mod 0x40 = r0"
    by (rule split64)
  obtain y r1 where y: "x = 0x40 * y + r1" "r1 < 0x40" "x div 0x40 = y" "x mod 0x40 = r1"
    by (rule split64)
  obtain z r2 where z: "y = 0x40 * z + r2" "r2 < 0x40" "y div 0x40 = z" "y mod 0x40 = r2"
    by (rule split64)
  consider "c < 0x80" | "0x80 \<le> c" "c < 0x800" | "0x800 \<le> c" "c < 0x10000" | "0x10000 \<le> c"
    by linarith
  then show ?thesis
  proof cases
    case 1
    then show ?thesis by (simp add: utf8_char_def)
  next
    case 2
    define b0 where "b0 = 0xC0 + x"
    define b1 where "b1 = 0x80 + r0"
    have u: "utf8_char c = [b0, b1]"
      using 2 by (simp add: utf8_char_def b0_def b1_def x(3,4))
    have "0xC2 \<le> b0" "b0 < 0xE0"
      using 2 x(1,2) unfolding b0_def by linarith+
    moreover have "cont b1" using x(2) by (simp add: b1_def cont_def)
    moreover have "(b0 - 0xC0) * 0x40 + (b1 - 0x80) = c"
      unfolding b0_def b1_def using x(1) by simp
    ultimately show ?thesis
      unfolding u using decode2 [of b0 b1 b] by simp
  next
    case 3
    define b0 where "b0 = 0xE0 + y"
    define b1 where "b1 = 0x80 + r1"
    define b2 where "b2 = 0x80 + r0"
    have u: "utf8_char c = [b0, b1, b2]"
      using 3 by (simp add: utf8_char_def b0_def b1_def b2_def div_4096 x(3,4) y(3,4))
    have r: "0xE0 \<le> b0" "b0 < 0xF0"
      using 3 x(1,2) y(1,2) unfolding b0_def by linarith+
    have "b0 = 0xE0 \<longrightarrow> 0xA0 \<le> b1 \<and> b1 < 0xC0"
      using 3 x(1,2) y(1,2) unfolding b0_def b1_def by linarith
    moreover have "b0 = 0xED \<longrightarrow> 0x80 \<le> b1 \<and> b1 < 0xA0"
      using 3 assms x(1,2) y(1,2) unfolding b0_def b1_def encodable_def by linarith
    moreover have "cont b1" using y(2) by (simp add: b1_def cont_def)
    ultimately have "second3 b0 b1" by (simp add: second3_def)
    moreover have "cont b2" using x(2) by (simp add: b2_def cont_def)
    moreover have "(b0 - 0xE0) * 0x1000 + (b1 - 0x80) * 0x40 + (b2 - 0x80) = c"
      unfolding b0_def b1_def b2_def using x(1) y(1) by simp
    ultimately show ?thesis
      unfolding u using r decode3 [of b0 b1 b2 b] by simp
  next
    case 4
    have c: "c < 0x110000" using assms by (simp add: encodable_def)
    define b0 where "b0 = 0xF0 + z"
    define b1 where "b1 = 0x80 + r2"
    define b2 where "b2 = 0x80 + r1"
    define b3 where "b3 = 0x80 + r0"
    have u: "utf8_char c = [b0, b1, b2, b3]"
      using 4 by (simp add: utf8_char_def b0_def b1_def b2_def b3_def div_4096 div_262144 x(3,4) y(3,4) z(3,4))
    have r: "0xF0 \<le> b0" "b0 < 0xF5"
      using c x(1,2) y(1,2) z(1,2) unfolding b0_def by linarith+
    have "b0 = 0xF0 \<longrightarrow> 0x90 \<le> b1 \<and> b1 < 0xC0"
      using 4 x(1,2) y(1,2) z(1,2) unfolding b0_def b1_def by linarith
    moreover have "b0 = 0xF4 \<longrightarrow> 0x80 \<le> b1 \<and> b1 < 0x90"
      using c x(1,2) y(1,2) z(1,2) unfolding b0_def b1_def by linarith
    moreover have "cont b1" using z(2) by (simp add: b1_def cont_def)
    ultimately have "second4 b0 b1" by (simp add: second4_def)
    moreover have "cont b2" "cont b3" using x(2) y(2) by (simp_all add: b2_def b3_def cont_def)
    moreover have "(b0 - 0xF0) * 0x40000 + (b1 - 0x80) * 0x1000 + (b2 - 0x80) * 0x40
                     + (b3 - 0x80) = c"
      unfolding b0_def b1_def b2_def b3_def using x(1) y(1) z(1) by simp
    ultimately show ?thesis
      unfolding u using r decode4 [of b0 b1 b2 b3 b] by simp
  qed
qed

lemma decode_short:
  "0x80 \<le> b0 \<Longrightarrow> decode_utf8 [b0] = Inl UnicodeDecodeError"
  "0xE0 \<le> b0 \<Longrightarrow> decode_utf8 [b0, b1] = Inl UnicodeDecodeError"
  "0xF0 \<le> b0 \<Longrightarrow> decode_utf8 [b0, b1, b2] = Inl UnicodeDecodeError"
  by simp_all

lemma decode_truncated:
  assumes "0 < m" "m < length (utf8_char c)"
  shows "decode_utf8 (take m (utf8_char c)) = Inl UnicodeDecodeError"
proof -
  consider "c < 0x80" | "0x80 \<le> c" "c < 0x800" | "0x800 \<le> c" "c < 0x10000" | "0x10000 \<le> c"
    by linarith
  then show ?thesis
  proof cases
    case 1
    then show ?thesis using assms by (simp add: utf8_char_def)
  next
    case 2
    then have "m = 1" using assms by (simp add: utf8_char_def)
    then show ?thesis using 2 by (simp add: utf8_char_def decode_short del: decode_utf8.simps)
  next
    case 3
    then have "m = 1 \<or> m = 2" using assms by (auto simp: utf8_char_def)
    then show ?thesis using 3
      by (auto simp: utf8_char_def decode_short numeral_2_eq_2 simp del: decode_utf8.simps)
  next
    case 4
    then have "m = 1 \<or> m = 2 \<or> m = 3" using assms by (auto simp: utf8_char_def)
    then show ?thesis using 4
      by (auto simp: utf8_char_def decode_short numeral_2_eq_2 numeral_3_eq_3
          simp del: decode_utf8.simps)
  qed
qed

lemma utf8_char_not_Nil [simp]: "utf8_char c \<noteq> []"
  by (simp add: utf8_char_def)

lemma fitlen_le: "fitlen m u \<le> m"
proof (induction u arbitrary: m)
  case Nil
  then show ?case by simp
next
  case (Cons c cs)
  have "fitlen (m - length (utf8_char c)) cs \<le> m - length (utf8_char c)"
    by (rule Cons.IH)
  then show ?case
    by (cases "length (utf8_char c) \<le> m") simp_all
qed

lemma fit_le_length: "fit m u \<le> length u"
  by (induction u arbitrary: m) auto

lemma fit_all: "length (utf8 u) \<le> m \<Longrightarrow> fit m u = length u"
  by (induction u arbitrary: m) auto

lemma fit_pos: "u \<noteq> [] \<Longrightarrow> 4 \<le> m \<Longrightarrow> 0 < fit m u"
  using length_utf8_char_le [of "hd u"] by (cases u) auto

lemma fit_pred: "fitlen m u \<noteq> m \<Longrightarrow> fit (m - 1) u = fit m u"
proof (induction u arbitrary: m)
  case Nil
  then show ?case by simp
next
  case (Cons c cs)
  show ?case
  proof (cases "length (utf8_char c) \<le> m")
    case True
    with Cons.prems have ne: "fitlen (m - length (utf8_char c)) cs \<noteq> m - length (utf8_char c)"
      by auto
    then have "fit (m - length (utf8_char c) - 1) cs = fit (m - length (utf8_char c)) cs"
      by (rule Cons.IH)
    moreover have "length (utf8_char c) \<le> m - 1"
      using True ne fitlen_le [of "m - length (utf8_char c)" cs]
      by (cases "length (utf8_char c) = m") auto
    moreover have "m - 1 - length (utf8_char c) = m - length (utf8_char c) - 1"
      by simp
    ultimately show ?thesis using True by simp
  next
    case False
    then show ?thesis by simp
  qed
qed

lemma cons_char_simps [simp]:
  "cons_char c (Inr cs) = Inr (c # cs)" "cons_char c (Inl e) = Inl e"
  by (simp_all add: cons_char_def)

lemma decode_take:
  assumes "\<forall>c\<in>set u. encodable c" "m \<le> length (utf8 u)"
  shows "decode_utf8 (take m (utf8 u)) =
           (if fitlen m u = m then Inr (take (fit m u) u) else Inl UnicodeDecodeError)"
  using assms
proof (induction u arbitrary: m)
  case Nil
  then show ?case by simp
next
  case (Cons c cs)
  let ?L = "length (utf8_char c)"
  consider "m = 0" | "0 < m" "m < ?L" | "?L \<le> m"
    by linarith
  then show ?case
  proof cases
    case 1
    then show ?thesis by simp
  next
    case 2
    then have "take m (utf8 (c # cs)) = take m (utf8_char c)"
      by simp
    then show ?thesis using 2 decode_truncated [of m c] by simp
  next
    case 3
    have enc: "encodable c" "\<forall>c\<in>set cs. encodable c"
      using Cons.prems by simp_all
    have le: "m - ?L \<le> length (utf8 cs)"
      using Cons.prems 3 by simp
    have "take m (utf8 (c # cs)) = utf8_char c @ take (m - ?L) (utf8 cs)"
      using 3 by simp
    then have "decode_utf8 (take m (utf8 (c # cs))) =
                 cons_char c (decode_utf8 (take (m - ?L) (utf8 cs)))"
      using decode_char [OF enc(1)] by simp
    also have "\<dots> = cons_char c
        (if fitlen (m - ?L) cs = m - ?L then Inr (take (fit (m - ?L) cs) cs)
         else Inl UnicodeDecodeError)"
      using Cons.IH [OF enc(2) le] by simp
    finally show ?thesis using 3 by auto
  qed
qed

lemma decode_utf8_utf8: "\<forall>c\<in>set u. encodable c \<Longrightarrow> decode_utf8 (utf8 u) = Inr u"
  using decode_take [of u "length (utf8 u)"] by (simp add: fit_all)

section \<open>The loops of \<open>split_text\<close>\<close>

lemma utf8_take_drop: "utf8 (take j u) @ utf8 (drop j u) = utf8 u"
  by (metis append_take_drop_id utf8_simps(3))

lemma take_fitlen: "take (fitlen m u) (utf8 u) = utf8 (take (fit m u) u)"
  using utf8_take_drop [of "fit m u" u] by (metis append_eq_conv_conj)

lemma slice_append: "slice (pre @ b) (length pre) (length pre + m) = take m b"
  by (simp add: slice_def)

lemma fit_0 [simp]: "fit 0 u = 0"
  by (cases u) simp_all

lemma adjust_end_eq:
  assumes enc: "\<forall>c\<in>set u. encodable c" and m: "m \<le> length (utf8 u)"
  shows "adjust_end (pre @ utf8 u) (length pre) (length pre + m) =
           (if m < length (utf8 u) then length pre + fitlen m u else length pre + m)"
  using m
proof (induction m)
  case 0
  show ?case
    by (subst adjust_end.simps) (simp add: slice_append [where m = 0, simplified] slice_def)
next
  case (Suc m)
  show ?case
  proof (cases "Suc m < length (utf8 u)")
    case False
    then show ?thesis
      by (subst adjust_end.simps) simp
  next
    case True
    have dec: "decode_utf8 (slice (pre @ utf8 u) (length pre) (length pre + Suc m)) =
        (if fitlen (Suc m) u = Suc m then Inr (take (fit (Suc m) u) u)
         else Inl UnicodeDecodeError)"
      using decode_take [OF enc Suc.prems] by (simp only: slice_append)
    show ?thesis
    proof (cases "fitlen (Suc m) u = Suc m")
      case eq: True
      then show ?thesis using True dec
        by (subst adjust_end.simps) simp
    next
      case ne: False
      have "adjust_end (pre @ utf8 u) (length pre) (length pre + Suc m) =
              adjust_end (pre @ utf8 u) (length pre) (length pre + m)"
        using True dec ne by (subst adjust_end.simps) simp
      also have "\<dots> = length pre + fitlen m u"
        using Suc.IH True by simp
      also have "fit m u = fit (Suc m) u"
        using fit_pred [OF ne] by simp
      finally show ?thesis using True by simp
    qed
  qed
qed

lemma window:
  fixes pre :: bytes and u :: str and mx :: nat
  assumes enc: "\<forall>c\<in>set u. encodable c"
  defines "b \<equiv> pre @ utf8 u"
  defines "e \<equiv> adjust_end b (length pre) (min (length pre + mx) (length pre + length (utf8 u)))"
  shows "e = length pre + fitlen mx u"
    and "decode_utf8 (slice b (length pre) e) = Inr (take (fit mx u) u)"
proof -
  show e: "e = length pre + fitlen mx u"
  proof (cases "mx < length (utf8 u)")
    case True
    then have "min (length pre + mx) (length pre + length (utf8 u)) = length pre + mx"
      by simp
    then show ?thesis
      using adjust_end_eq [OF enc, of mx pre] True by (simp add: e_def b_def)
  next
    case False
    then have "min (length pre + mx) (length pre + length (utf8 u)) = length pre + length (utf8 u)"
      by simp
    then show ?thesis
      using adjust_end_eq [OF enc, of "length (utf8 u)" pre] False
      by (simp add: e_def b_def fit_all)
  qed
  have "slice b (length pre) e = utf8 (take (fit mx u) u)"
    unfolding e b_def by (simp only: slice_append take_fitlen)
  moreover have "\<forall>c\<in>set (take (fit mx u) u). encodable c"
    using enc by (meson in_set_takeD)
  ultimately show "decode_utf8 (slice b (length pre) e) = Inr (take (fit mx u) u)"
    by (simp add: decode_utf8_utf8)
qed

lemma split_loop_eq:
  assumes "\<forall>c\<in>set u. encodable c"
  shows "split_loop (pre @ utf8 u) mx n is (length pre) parts =
           Inr (parts @ map (mark n) (zip is (chunks mx (length is) u)))"
  using assms
proof (induction "is" arbitrary: pre u parts)
  case Nil
  then show ?case by simp
next
  case (Cons i "is")
  let ?p = "take (fit mx u) u"
  let ?pre = "pre @ utf8 ?p"
  have b: "?pre @ utf8 (drop (fit mx u) u) = pre @ utf8 u"
    by (simp add: utf8_take_drop)
  have len: "length ?pre = length pre + fitlen mx u"
    by simp
  have enc: "\<forall>c\<in>set (drop (fit mx u) u). encodable c"
    using Cons.prems by (meson in_set_dropD)
  note w1 = window(1) [OF Cons.prems, of pre mx]
  note w2 = window(2) [OF Cons.prems, of pre mx, unfolded w1]
  have "split_loop (pre @ utf8 u) mx n (i # is) (length pre) parts =
          split_loop (?pre @ utf8 (drop (fit mx u) u)) mx n is (length ?pre)
            (parts @ [mark n (i, ?p)])"
    unfolding b len by (simp add: w1 w2 Let_def mark_def)
  also have "\<dots> = Inr ((parts @ [mark n (i, ?p)])
       @ map (mark n) (zip is (chunks mx (length is) (drop (fit mx u) u))))"
    by (rule Cons.IH [OF enc])
  finally show ?case by simp
qed

lemma length_chunks [simp]: "length (chunks m n u) = n"
  by (induction n arbitrary: u) simp_all

lemma chunks_prefix: "\<exists>r. u = concat (chunks m n u) @ r"
proof (induction n arbitrary: u)
  case 0
  then show ?case by simp
next
  case (Suc n)
  obtain r where "drop (fit m u) u = concat (chunks m n (drop (fit m u) u)) @ r"
    using Suc.IH by blast
  then have "u = take (fit m u) u @ concat (chunks m n (drop (fit m u) u)) @ r"
    by (metis append_take_drop_id)
  then show ?case by auto
qed

lemma chunks_within: "p \<in> set (chunks m n u) \<Longrightarrow> length (utf8 p) \<le> m"
  by (induction n arbitrary: u) (auto simp: fitlen_le)

lemma chunks_encodable:
  "\<forall>c\<in>set u. encodable c \<Longrightarrow> p \<in> set (chunks m n u) \<Longrightarrow> \<forall>c\<in>set p. encodable c"
proof (induction n arbitrary: u)
  case 0
  then show ?case by simp
next
  case (Suc n)
  have "\<forall>c\<in>set (drop (fit m u) u). encodable c" "\<forall>c\<in>set (take (fit m u) u). encodable c"
    using Suc.prems(1) by (meson in_set_dropD in_set_takeD)+
  then show ?case using Suc.IH Suc.prems(2) by auto
qed

lemma length_utf8_drop: "length (utf8 (drop j u)) = length (utf8 u) - length (utf8 (take j u))"
  using utf8_take_drop [of j u] by (metis add_diff_cancel_left' length_append)

lemma chunks_nonempty:
  assumes "4 \<le> m" "n * m < length (utf8 u) + m" "p \<in> set (chunks m n u)"
  shows "p \<noteq> []"
  using assms(2,3)
proof (induction n arbitrary: u)
  case 0
  then show ?case by simp
next
  case (Suc n)
  have "u \<noteq> []"
    using Suc.prems(1) by (cases u) auto
  then have pos: "0 < fit m u"
    using assms(1) by (rule fit_pos)
  have "n * m < length (utf8 (drop (fit m u) u)) + m"
    using Suc.prems(1) fitlen_le [of m u] by (simp add: length_utf8_drop)
  then have "p \<in> set (chunks m n (drop (fit m u) u)) \<Longrightarrow> p \<noteq> []"
    by (rule Suc.IH)
  moreover have "take (fit m u) u \<noteq> []"
    using pos \<open>u \<noteq> []\<close> by simp
  ultimately show ?case using Suc.prems(2) by auto
qed

lemma ceil_div_bounds:
  assumes "0 < m"
  shows "ceil_div a m * m < a + m" and "a \<le> ceil_div a m * m"
proof -
  define q where "q = a div m"
  define r where "r = a mod m"
  have a: "a = m * q + r" and r: "r < m"
    using assms by (simp_all add: q_def r_def)
  have "ceil_div a m = (if r = 0 then q else q + 1)"
    using ceil_div_eq [OF assms, of a] up_div [OF assms, of a] by (simp only: q_def r_def)
  then have e: "ceil_div (m * q + r) m = (if r = 0 then q else q + 1)"
    by (simp only: a)
  show "ceil_div a m * m < a + m"
    unfolding a e using r assms by (simp add: mult.commute)
  show "a \<le> ceil_div a m * m"
    unfolding a e using r by (simp add: mult.commute)
qed

lemma ceil_div_gt1:
  assumes "0 < m" "m < a"
  shows "1 < ceil_div a m"
proof -
  have le: "a \<le> ceil_div a m * m"
    using assms(1) by (rule ceil_div_bounds(2))
  have "ceil_div a m \<noteq> 0"
  proof
    assume "ceil_div a m = 0"
    with le assms show False by simp
  qed
  moreover have "ceil_div a m \<noteq> 1"
  proof
    assume "ceil_div a m = 1"
    with le assms show False by simp
  qed
  ultimately show ?thesis by linarith
qed

lemma split_text_long:
  assumes m: "MAX_BYTES_PER_QR (error_correction_level self) = Some mx"
    and e: "encode_utf8 t = Inr b"
    and long: "mx < length b"
  shows "split_text self t =
           Inr (map (\<lambda>(i, p). part_prefix i (ceil_div (length b) mx) @ p)
                  (zip [0..<ceil_div (length b) mx] (chunks mx (ceil_div (length b) mx) t)))"
proof -
  let ?n = "ceil_div (length b) mx"
  have pos: "0 < mx" using m by (auto simp: MAX_BYTES_PER_QR_Some)
  have n: "1 < ?n" using pos long by (rule ceil_div_gt1)
  have enc: "\<forall>c\<in>set t. encodable c" and b: "b = utf8 t"
    using e by (simp_all add: encode_utf8_iff)
  have "split_text self t = split_loop ([] @ utf8 t) mx ?n [0..<?n] (length ([] :: bytes)) []"
    using m e long b by (simp add: split_text_def Let_def)
  also have "\<dots> = Inr ([] @ map (mark ?n) (zip [0..<?n] (chunks mx (length [0..<?n]) t)))"
    by (rule split_loop_eq [OF enc])
  also have "mark ?n = (\<lambda>(i, p). part_prefix i ?n @ p)"
    using n by (simp add: mark_def)
  finally show ?thesis by simp
qed

section \<open>The single-segment case, the table and \<open>get_text_info\<close>\<close>

text \<open>
  Claim C4. When the UTF-8 encoding of the text is no longer than the budget of the
  configured level, \<open>split_text\<close> returns one segment, the text itself, with no
  marker in front.
\<close>

theorem split_text_short:
  assumes "MAX_BYTES_PER_QR (error_correction_level self) = Some max_bytes"
    and "encode_utf8 text = Inr text_bytes"
    and "length text_bytes \<le> max_bytes"
  shows "split_text self text = Inr [text]"
  using assms by (simp add: split_text_def)

theorem split_text_short_witness:
  "split_text default_converter (lit ''Hello, World!'') = Inr [lit ''Hello, World!'']"
proof -
  have 1: "MAX_BYTES_PER_QR (error_correction_level default_converter) = Some 2300"
    by (simp add: default_converter_def init_def MAX_BYTES_PER_QR_def)
  have 2: "encode_utf8 (lit ''Hello, World!'') = Inr (lit ''Hello, World!'')"
    by (simp add: lit_def encodable_def utf8_char_def)
  have 3: "length (lit ''Hello, World!'') \<le> (2300 :: nat)"
    by (simp add: lit_def)
  show ?thesis
    by (rule split_text_short [OF 1 2 3])
qed

text \<open>
  Claim C8. A level outside \<open>L\<close>, \<open>M\<close>, \<open>Q\<close>, \<open>H\<close> has no entry in
  \<open>MAX_BYTES_PER_QR\<close>, so \<open>split_text\<close> and \<open>get_text_info\<close> raise and return
  nothing (\<open>split_text\<close> looks the level up first and raises \<open>KeyError\<close>;
  \<open>get_text_info\<close> encodes first and may raise the encoder's error instead). A level
  inside the set gives its fixed budget; the lookup is a pure function.
\<close>

theorem capacity_lookup:
  "(error_correction_level self \<notin> {''L'', ''M'', ''Q'', ''H''} \<longrightarrow>
      MAX_BYTES_PER_QR (error_correction_level self) = None
      \<and> split_text self text = Inl KeyError
      \<and> (\<exists>e. get_text_info self text = Inl e))
   \<and> (error_correction_level self \<in> {''L'', ''M'', ''Q'', ''H''} \<longrightarrow>
      MAX_BYTES_PER_QR (error_correction_level self)
        = Some (if error_correction_level self = ''L'' then 2900
                else if error_correction_level self = ''M'' then 2300
                else if error_correction_level self = ''Q'' then 1600 else 1200))"
  by (auto simp: MAX_BYTES_PER_QR_def split_text_def get_text_info_def split: sum.splits)

theorem capacity_lookup_witness:
  "''X'' \<notin> {''L'', ''M'', ''Q'', ''H''}
   \<and> MAX_BYTES_PER_QR ''X'' = None
   \<and> split_text (init ''X'' 10 4) (lit ''abc'') = Inl KeyError
   \<and> get_text_info (init ''X'' 10 4) (lit ''abc'') = Inl KeyError
   \<and> ''Q'' \<in> {''L'', ''M'', ''Q'', ''H''}
   \<and> MAX_BYTES_PER_QR ''Q'' = Some 1600"
  using capacity_lookup [of "init ''X'' 10 4" "lit ''abc''"]
    capacity_lookup [of "init ''Q'' 10 4" "lit ''abc''"]
  by (simp add: init_def get_text_info_def lit_def encodable_def utf8_char_def MAX_BYTES_PER_QR_def)

text \<open>
  Claim C10. For the empty string and a defined level, \<open>split_text\<close> returns the one
  segment \<open>''\<close>, while \<open>get_text_info\<close> reports \<open>num_qrcodes = 0\<close>.
\<close>

theorem empty_string_segments:
  assumes "error_correction_level self \<in> {''L'', ''M'', ''Q'', ''H''}"
  shows "split_text self [] = Inr [[]]
         \<and> (\<exists>info. get_text_info self [] = Inr info \<and> num_qrcodes info = 0)"
  using assms by (auto simp: split_text_def get_text_info_def MAX_BYTES_PER_QR_def ceil_div_def)

theorem empty_string_segments_witness:
  "split_text default_converter [] = Inr [[]]
   \<and> (\<exists>info. get_text_info default_converter [] = Inr info \<and> num_qrcodes info = 0)"
proof -
  have "error_correction_level default_converter \<in> {''L'', ''M'', ''Q'', ''H''}"
    by (simp add: default_converter_def init_def)
  then show ?thesis
    by (rule empty_string_segments)
qed

text \<open>
  Claim C7. For a defined level and an encodable text, \<open>get_text_info\<close> returns the
  number of code points, the number of UTF-8 bytes, the budget of the level (2900, 2300,
  1600, 1200 for \<open>L\<close>, \<open>M\<close>, \<open>Q\<close>, \<open>H\<close>) and the ceiling of bytes over budget;
  for \<open>Hello, World!\<close> at level \<open>M\<close> these are 13, 13, 2300 and 1.
\<close>

theorem get_text_info_fields:
  "(MAX_BYTES_PER_QR (error_correction_level self) = Some max_bytes
      \<and> encode_utf8 text = Inr text_bytes \<longrightarrow>
      get_text_info self text =
        Inr \<lparr>char_count = length text,
             byte_count = length text_bytes,
             max_bytes_per_qr = max_bytes,
             num_qrcodes = nat \<lceil>real (length text_bytes) / real max_bytes\<rceil>,
             error_correction = error_correction_level self\<rparr>
      \<and> max_bytes = (if error_correction_level self = ''L'' then 2900
                     else if error_correction_level self = ''M'' then 2300
                     else if error_correction_level self = ''Q'' then 1600 else 1200)
      \<and> nat \<lceil>real (length text_bytes) / real max_bytes\<rceil>
          = (length text_bytes + max_bytes - 1) div max_bytes)
   \<and> get_text_info default_converter (lit ''Hello, World!'') =
        Inr \<lparr>char_count = 13, byte_count = 13, max_bytes_per_qr = 2300,
             num_qrcodes = 1, error_correction = ''M''\<rparr>"
proof -
  have hello: "get_text_info default_converter (lit ''Hello, World!'') =
        Inr \<lparr>char_count = 13, byte_count = 13, max_bytes_per_qr = 2300,
             num_qrcodes = 1, error_correction = ''M''\<rparr>"
    by (simp add: get_text_info_def default_converter_def init_def lit_def encodable_def
        utf8_char_def MAX_BYTES_PER_QR_def ceil_div_eq)
  have general: "get_text_info self text =
        Inr \<lparr>char_count = length text,
             byte_count = length text_bytes,
             max_bytes_per_qr = max_bytes,
             num_qrcodes = nat \<lceil>real (length text_bytes) / real max_bytes\<rceil>,
             error_correction = error_correction_level self\<rparr>
      \<and> max_bytes = (if error_correction_level self = ''L'' then 2900
                     else if error_correction_level self = ''M'' then 2300
                     else if error_correction_level self = ''Q'' then 1600 else 1200)
      \<and> nat \<lceil>real (length text_bytes) / real max_bytes\<rceil>
          = (length text_bytes + max_bytes - 1) div max_bytes"
    if m: "MAX_BYTES_PER_QR (error_correction_level self) = Some max_bytes"
      and e: "encode_utf8 text = Inr text_bytes"
  proof -
    have pos: "0 < max_bytes"
      using m by (auto simp: MAX_BYTES_PER_QR_Some)
    have "get_text_info self text =
        Inr \<lparr>char_count = length text,
             byte_count = length text_bytes,
             max_bytes_per_qr = max_bytes,
             num_qrcodes = nat \<lceil>real (length text_bytes) / real max_bytes\<rceil>,
             error_correction = error_correction_level self\<rparr>"
      by (simp add: get_text_info_def m e ceil_div_def)
    moreover have "max_bytes = (if error_correction_level self = ''L'' then 2900
                     else if error_correction_level self = ''M'' then 2300
                     else if error_correction_level self = ''Q'' then 1600 else 1200)"
      using m by (auto simp: MAX_BYTES_PER_QR_Some)
    moreover have "nat \<lceil>real (length text_bytes) / real max_bytes\<rceil>
          = (length text_bytes + max_bytes - 1) div max_bytes"
      using ceil_div_eq [OF pos, of "length text_bytes"] by (simp only: ceil_div_def)
    ultimately show ?thesis
      by blast
  qed
  from hello general show ?thesis
    by blast
qed

theorem get_text_info_fields_witness:
  "get_text_info (init ''H'' 10 4) (lit ''abc'') =
     Inr \<lparr>char_count = 3, byte_count = 3, max_bytes_per_qr = 1200,
          num_qrcodes = 1, error_correction = ''H''\<rparr>"
proof -
  have 1: "MAX_BYTES_PER_QR (error_correction_level (init ''H'' 10 4)) = Some 1200"
    by (simp add: init_def MAX_BYTES_PER_QR_def)
  have 2: "encode_utf8 (lit ''abc'') = Inr (lit ''abc'')"
    by (simp add: lit_def encodable_def utf8_char_def)
  have 3: "(length (lit ''abc'') + 1200 - 1) div 1200 = (1 :: nat)" "length (lit ''abc'') = 3"
    by (simp_all add: lit_def)
  from get_text_info_fields [of "init ''H'' 10 4" 1200 "lit ''abc''" "lit ''abc''"] 1 2 3
  show ?thesis
    by (simp add: init_def)
qed

lemma ascii_encodable: "c < 0x80 \<Longrightarrow> encodable c"
  by (simp add: encodable_def)

lemma utf8_ascii: "\<forall>c\<in>set u. c < 0x80 \<Longrightarrow> utf8 u = u"
  by (induction u) (simp_all add: utf8_char_def)

lemma encode_ascii: "\<forall>c\<in>set u. c < 0x80 \<Longrightarrow> encode_utf8 u = Inr u"
  by (simp add: encode_utf8_eq utf8_ascii ascii_encodable)

lemma encode_replicate_a: "encode_utf8 (replicate k 0x61) = Inr (replicate k 0x61)"
  by (rule encode_ascii) simp

lemma level_H: "MAX_BYTES_PER_QR (error_correction_level (init ''H'' 10 4)) = Some 1200"
  by (simp add: init_def MAX_BYTES_PER_QR_def)

section \<open>Texts longer than the budget\<close>

text \<open>
  Claim C3. When the UTF-8 encoding of the text is longer than the budget of the
  configured level, \<open>split_text\<close> returns exactly the ceiling of byte length over
  budget many segments, and segment number \<open>i\<close> (counted from 1) starts with the marker
  \<open>[i/n]\<close> and a line break, \<open>n\<close> being the number of segments.
\<close>

theorem split_text_count_and_markers:
  assumes "MAX_BYTES_PER_QR (error_correction_level self) = Some max_bytes"
    and "encode_utf8 text = Inr text_bytes"
    and "max_bytes < length text_bytes"
  shows "\<exists>parts. split_text self text = Inr parts
           \<and> length parts = nat \<lceil>real (length text_bytes) / real max_bytes\<rceil>
           \<and> (\<forall>i<length parts. \<exists>payload.
                 parts ! i = lit ''['' @ str_of_nat (i + 1) @ lit ''/''
                             @ str_of_nat (length parts) @ lit '']'' @ [0x0A] @ payload)"
proof -
  let ?n = "ceil_div (length text_bytes) max_bytes"
  let ?parts = "map (\<lambda>(i, p). part_prefix i ?n @ p) (zip [0..<?n] (chunks max_bytes ?n text))"
  have "split_text self text = Inr ?parts"
    using assms by (rule split_text_long)
  moreover have len: "length ?parts = ?n"
    by simp
  moreover have "\<exists>payload. ?parts ! i = lit ''['' @ str_of_nat (i + 1) @ lit ''/''
                   @ str_of_nat (length ?parts) @ lit '']'' @ [0x0A] @ payload"
    if "i < length ?parts" for i
  proof -
    have "?parts ! i = part_prefix i ?n @ chunks max_bytes ?n text ! i"
      using that by simp
    then show ?thesis
      unfolding len by (simp add: part_prefix_def)
  qed
  ultimately show ?thesis
    unfolding ceil_div_def by blast
qed

theorem split_text_count_and_markers_witness:
  "\<exists>parts. split_text (init ''H'' 10 4) (replicate 1201 0x61) = Inr parts
     \<and> length parts = nat \<lceil>real (length (replicate 1201 (0x61 :: nat))) / real (1200 :: nat)\<rceil>
     \<and> (\<forall>i<length parts. \<exists>payload.
           parts ! i = lit ''['' @ str_of_nat (i + 1) @ lit ''/''
                       @ str_of_nat (length parts) @ lit '']'' @ [0x0A] @ payload)"
proof -
  have "(1200 :: nat) < length (replicate 1201 (0x61 :: nat))"
    by simp
  then show ?thesis
    by (rule split_text_count_and_markers [OF level_H encode_replicate_a])
qed

text \<open>
  Claim C6. When the encoding is longer than the budget, \<open>split_text\<close> does not raise:
  the byte windows it cuts follow one another from the start of the encoded text, each
  window decodes, as a whole, to the payload of its segment, and no payload is empty. The
  payloads are consecutive runs of whole characters of the text, so no character is
  split between two segments.
\<close>

theorem split_text_whole_characters:
  assumes "MAX_BYTES_PER_QR (error_correction_level self) = Some max_bytes"
    and "encode_utf8 text = Inr text_bytes"
    and "max_bytes < length text_bytes"
  shows "\<exists>payloads windows.
           split_text self text =
             Inr (map (\<lambda>(i, p). part_prefix i (length payloads) @ p)
                    (zip [0..<length payloads] payloads))
           \<and> length windows = length payloads
           \<and> (\<forall>i<length payloads.
                 decode_utf8 (windows ! i) = Inr (payloads ! i) \<and> payloads ! i \<noteq> [])
           \<and> (\<exists>rest. text_bytes = concat windows @ rest)
           \<and> (\<exists>rest. text = concat payloads @ rest)"
proof -
  let ?n = "ceil_div (length text_bytes) max_bytes"
  let ?ps = "chunks max_bytes ?n text"
  have enc: "\<forall>c\<in>set text. encodable c" and b: "text_bytes = utf8 text"
    using assms(2) by (simp_all add: encode_utf8_iff)
  have four: "4 \<le> max_bytes" and pos: "0 < max_bytes"
    using assms(1) by (auto simp: MAX_BYTES_PER_QR_Some)
  have "split_text self text =
          Inr (map (\<lambda>(i, p). part_prefix i (length ?ps) @ p) (zip [0..<length ?ps] ?ps))"
    using split_text_long [OF assms] by simp
  moreover have "length (map utf8 ?ps) = length ?ps"
    by simp
  moreover have "decode_utf8 (map utf8 ?ps ! i) = Inr (?ps ! i) \<and> ?ps ! i \<noteq> []"
    if "i < length ?ps" for i
  proof -
    have mem: "?ps ! i \<in> set ?ps"
      using that by (rule nth_mem)
    have "\<forall>c\<in>set (?ps ! i). encodable c"
      using enc mem by (rule chunks_encodable)
    then have "decode_utf8 (utf8 (?ps ! i)) = Inr (?ps ! i)"
      by (rule decode_utf8_utf8)
    moreover have "?n * max_bytes < length (utf8 text) + max_bytes"
      using ceil_div_bounds(1) [OF pos, of "length text_bytes"] by (simp add: b)
    with four have "?ps ! i \<noteq> []"
      using mem by (rule chunks_nonempty)
    ultimately show ?thesis
      using that by simp
  qed
  moreover obtain r where r: "text = concat ?ps @ r"
    using chunks_prefix by blast
  moreover have "text_bytes = concat (map utf8 ?ps) @ utf8 r"
  proof -
    have "utf8 (concat xs) = concat (map utf8 xs)" for xs
      by (induction xs) simp_all
    then show ?thesis
      using r b by (metis utf8_simps(3))
  qed
  ultimately show ?thesis
    by blast
qed

theorem split_text_whole_characters_witness:
  "\<exists>payloads windows.
     split_text (init ''H'' 10 4) (replicate 1201 0x61) =
       Inr (map (\<lambda>(i, p). part_prefix i (length payloads) @ p)
              (zip [0..<length payloads] payloads))
     \<and> length windows = length payloads
     \<and> (\<forall>i<length payloads.
           decode_utf8 (windows ! i) = Inr (payloads ! i) \<and> payloads ! i \<noteq> [])
     \<and> (\<exists>rest. replicate 1201 0x61 = concat windows @ rest)
     \<and> (\<exists>rest. replicate 1201 0x61 = concat payloads @ rest)"
proof -
  have "(1200 :: nat) < length (replicate 1201 (0x61 :: nat))"
    by simp
  then show ?thesis
    by (rule split_text_whole_characters [OF level_H encode_replicate_a])
qed

lemma utf8_replicate: "utf8 (replicate k c) = concat (replicate k (utf8_char c))"
  by (induction k) simp_all

lemma length_utf8_replicate: "length (utf8 (replicate k c)) = k * length (utf8_char c)"
  by (induction k) simp_all

lemma fit_replicate: "fit m (replicate k c) = min k (m div length (utf8_char c))"
proof (induction k arbitrary: m)
  case 0
  then show ?case by simp
next
  case (Suc k)
  let ?L = "length (utf8_char c)"
  show ?case
  proof (cases "?L \<le> m")
    case True
    then have "m div ?L = Suc ((m - ?L) div ?L)"
      by (simp add: le_div_geq)
    then show ?thesis using True Suc.IH [of "m - ?L"] by simp
  next
    case False
    then show ?thesis by simp
  qed
qed

lemma str_of_nat_ascii: "c \<in> set (str_of_nat n) \<Longrightarrow> c < 0x80"
proof (induction n arbitrary: c rule: str_of_nat.induct)
  case (1 n)
  show ?case
  proof (cases "n < 10")
    case True
    then show ?thesis using "1.prems" by (subst (asm) str_of_nat.simps) simp
  next
    case False
    have "c \<in> set (str_of_nat (n div 10)) \<or> c = 0x30 + n mod 10"
      using "1.prems" False by (subst (asm) str_of_nat.simps) auto
    moreover have "0x30 + n mod 10 < (0x80 :: nat)"
      by simp
    ultimately show ?thesis using "1.IH" [OF False] by auto
  qed
qed

lemma part_prefix_ascii: "c \<in> set (part_prefix i n) \<Longrightarrow> c < 0x80"
  by (auto simp: part_prefix_def lit_def dest: str_of_nat_ascii)

lemma encode_marked:
  assumes "\<forall>c\<in>set p. encodable c"
  shows "encode_utf8 (part_prefix i n @ p) = Inr (part_prefix i n @ utf8 p)"
proof -
  have a: "\<forall>c\<in>set (part_prefix i n). c < 0x80"
    using part_prefix_ascii by blast
  then have "\<forall>c\<in>set (part_prefix i n). encodable c"
    using ascii_encodable by blast
  then show ?thesis
    using assms by (auto simp: encode_utf8_iff utf8_ascii [OF a])
qed

lemma part_prefix_1_2: "part_prefix 0 2 = lit ''[1/2]'' @ [0x0A]"
  and part_prefix_2_2: "part_prefix (Suc 0) 2 = lit ''[2/2]'' @ [0x0A]"
  by (simp_all add: part_prefix_def lit_def str_of_nat.simps)

lemma level_M: "MAX_BYTES_PER_QR (error_correction_level default_converter) = Some 2300"
  by (simp add: default_converter_def init_def MAX_BYTES_PER_QR_def)

lemma chunks_2: "chunks m 2 t = [take (fit m t) t, take (fit m (drop (fit m t) t)) (drop (fit m t) t)]"
  by (simp add: numeral_2_eq_2)

lemma split_text_replicate_2:
  assumes m: "MAX_BYTES_PER_QR (error_correction_level self) = Some mx"
    and c: "encodable c"
    and L: "length (utf8_char c) = l"
    and two: "ceil_div (k * l) mx = 2"
    and long: "mx < k * l"
  shows "split_text self (replicate k c) =
           Inr [part_prefix 0 2 @ replicate (min k (mx div l)) c,
                part_prefix 1 2 @ replicate (min (k - mx div l) (mx div l)) c]"
proof -
  have e: "encode_utf8 (replicate k c) = Inr (utf8 (replicate k c))"
    using c by (simp add: encode_utf8_eq)
  have len: "length (utf8 (replicate k c)) = k * l"
    by (simp add: length_utf8_replicate L)
  have "split_text self (replicate k c) =
          Inr (map (\<lambda>(i, p). part_prefix i 2 @ p) (zip [0..<2] (chunks mx 2 (replicate k c))))"
    using split_text_long [OF m e] long by (simp only: len two)
  moreover have "[0..<2] = [0, 1 :: nat]"
    by (simp add: numeral_2_eq_2)
  moreover have "chunks mx 2 (replicate k c) =
      [replicate (min k (mx div l)) c, replicate (min (k - mx div l) (mx div l)) c]"
    by (simp add: chunks_2 fit_replicate L min_def)
  ultimately show ?thesis
    by simp
qed

section \<open>The marker and the budget\<close>

text \<open>
  Claim C2, as stated, fails: for 2301 letters \<open>a\<close> at level \<open>M\<close> (budget 2300) the
  first segment is the marker \<open>[1/2]\<close>, a line break and 2300 letters, 2306 bytes.
\<close>

theorem marker_exceeds_budget:
  "split_text default_converter (replicate 2301 0x61) =
     Inr [lit ''[1/2]'' @ [0x0A] @ replicate 2300 0x61, lit ''[2/2]'' @ [0x0A] @ replicate 1 0x61]
   \<and> MAX_BYTES_PER_QR (error_correction_level default_converter) = Some 2300
   \<and> encode_utf8 (lit ''[1/2]'' @ [0x0A] @ replicate 2300 0x61)
       = Inr (lit ''[1/2]'' @ [0x0A] @ replicate 2300 0x61)
   \<and> length (lit ''[1/2]'' @ [0x0A] @ replicate 2300 (0x61 :: nat)) = 2306"
proof -
  have "encodable 0x61" "length (utf8_char 0x61) = 1"
    by (simp_all add: encodable_def utf8_char_def)
  moreover have "ceil_div (2301 * 1) 2300 = 2"
    by (simp add: ceil_div_eq)
  moreover have "(2300 :: nat) < 2301 * 1"
    by simp
  ultimately have "split_text default_converter (replicate 2301 0x61) =
           Inr [part_prefix 0 2 @ replicate (min 2301 (2300 div 1)) 0x61,
                part_prefix 1 2 @ replicate (min (2301 - 2300 div 1) (2300 div 1)) 0x61]"
    by (rule split_text_replicate_2 [OF level_M])
  then have "split_text default_converter (replicate 2301 0x61) =
     Inr [lit ''[1/2]'' @ [0x0A] @ replicate 2300 0x61, lit ''[2/2]'' @ [0x0A] @ replicate 1 0x61]"
    by (simp add: part_prefix_1_2 part_prefix_2_2 del: replicate.simps)
  moreover have "encode_utf8 (lit ''[1/2]'' @ [0x0A] @ replicate 2300 0x61)
       = Inr (lit ''[1/2]'' @ [0x0A] @ replicate 2300 0x61)"
    by (rule encode_ascii) (auto simp: lit_def)
  moreover have "length (lit ''[1/2]'' @ [0x0A] @ replicate 2300 (0x61 :: nat)) = 2306"
    by (simp add: lit_def)
  ultimately show ?thesis
    using level_M by blast
qed

lemma split_text_Inr_encode:
  assumes "split_text self text = Inr parts"
  shows "\<exists>b. encode_utf8 text = Inr b"
  using assms by (cases "encode_utf8 text") (auto simp: split_text_def split: option.splits)

text \<open>
  Claim C2, amended. The budget bounds the payload, not the segment: each segment is its
  marker (when there is more than one segment) followed by a payload of at most
  \<open>max_bytes\<close> UTF-8 bytes, and the encoded segment is longer than its payload by the
  length of the marker.
\<close>

theorem segment_payload_within_budget:
  assumes "MAX_BYTES_PER_QR (error_correction_level self) = Some max_bytes"
    and "split_text self text = Inr parts"
  shows "\<forall>i<length parts. \<exists>payload payload_bytes segment_bytes.
           parts ! i = (if length parts > 1 then part_prefix i (length parts) else []) @ payload
           \<and> encode_utf8 payload = Inr payload_bytes
           \<and> length payload_bytes \<le> max_bytes
           \<and> encode_utf8 (parts ! i) = Inr segment_bytes
           \<and> length segment_bytes =
               (if length parts > 1 then length (part_prefix i (length parts)) else 0)
               + length payload_bytes"
proof -
  obtain b where b: "encode_utf8 text = Inr b"
    using assms(2) split_text_Inr_encode by blast
  show ?thesis
  proof (cases "length b \<le> max_bytes")
    case True
    then have "parts = [text]"
      using assms b by (simp add: split_text_def)
    then show ?thesis
      using b True by simp
  next
    case False
    let ?n = "ceil_div (length b) max_bytes"
    let ?ps = "chunks max_bytes ?n text"
    have long: "max_bytes < length b"
      using False by simp
    have pos: "0 < max_bytes"
      using assms(1) by (auto simp: MAX_BYTES_PER_QR_Some)
    have n: "1 < ?n"
      using pos long by (rule ceil_div_gt1)
    have enc: "\<forall>c\<in>set text. encodable c"
      using b by (simp add: encode_utf8_iff)
    have parts: "parts = map (\<lambda>(i, p). part_prefix i ?n @ p) (zip [0..<?n] ?ps)"
      using split_text_long [OF assms(1) b long] assms(2) by simp
    then have len: "length parts = ?n"
      by simp
    show ?thesis
    proof (intro allI impI)
      fix i
      assume i: "i < length parts"
      then have mem: "?ps ! i \<in> set ?ps"
        by (simp add: len)
      have pe: "\<forall>c\<in>set (?ps ! i). encodable c"
        using enc mem by (rule chunks_encodable)
      have "parts ! i = part_prefix i ?n @ ?ps ! i"
        using i unfolding parts by simp
      moreover have "encode_utf8 (?ps ! i) = Inr (utf8 (?ps ! i))"
        using pe by (simp add: encode_utf8_eq)
      moreover have "length (utf8 (?ps ! i)) \<le> max_bytes"
        using mem by (rule chunks_within)
      moreover have "encode_utf8 (part_prefix i ?n @ ?ps ! i)
                       = Inr (part_prefix i ?n @ utf8 (?ps ! i))"
        using pe by (rule encode_marked)
      ultimately show "\<exists>payload payload_bytes segment_bytes.
           parts ! i = (if length parts > 1 then part_prefix i (length parts) else []) @ payload
           \<and> encode_utf8 payload = Inr payload_bytes
           \<and> length payload_bytes \<le> max_bytes
           \<and> encode_utf8 (parts ! i) = Inr segment_bytes
           \<and> length segment_bytes =
               (if length parts > 1 then length (part_prefix i (length parts)) else 0)
               + length payload_bytes"
        using n unfolding len by (intro exI [of _ "?ps ! i"] exI [of _ "utf8 (?ps ! i)"]
            exI [of _ "part_prefix i ?n @ utf8 (?ps ! i)"]) simp
    qed
  qed
qed

theorem segment_payload_within_budget_witness:
  "\<exists>payload payload_bytes segment_bytes.
     lit ''[1/2]'' @ [0x0A] @ replicate 2300 0x61 = part_prefix 0 2 @ payload
     \<and> encode_utf8 payload = Inr payload_bytes
     \<and> length payload_bytes \<le> 2300
     \<and> encode_utf8 (lit ''[1/2]'' @ [0x0A] @ replicate 2300 0x61) = Inr segment_bytes
     \<and> length segment_bytes = length (part_prefix 0 2) + length payload_bytes"
proof -
  let ?parts = "[lit ''[1/2]'' @ [0x0A] @ replicate 2300 0x61,
                 lit ''[2/2]'' @ [0x0A] @ replicate 1 (0x61 :: nat)]"
  have "encodable 0x61" "length (utf8_char 0x61) = 1"
    by (simp_all add: encodable_def utf8_char_def)
  moreover have "ceil_div (2301 * 1) 2300 = 2"
    by (simp add: ceil_div_eq)
  moreover have "(2300 :: nat) < 2301 * 1"
    by simp
  ultimately have "split_text default_converter (replicate 2301 0x61) =
           Inr [part_prefix 0 2 @ replicate (min 2301 (2300 div 1)) 0x61,
                part_prefix 1 2 @ replicate (min (2301 - 2300 div 1) (2300 div 1)) 0x61]"
    by (rule split_text_replicate_2 [OF level_M])
  then have "split_text default_converter (replicate 2301 0x61) = Inr ?parts"
    by (simp add: part_prefix_1_2 part_prefix_2_2 del: replicate.simps)
  then have "\<forall>i<length ?parts. \<exists>payload payload_bytes segment_bytes.
           ?parts ! i = (if length ?parts > 1 then part_prefix i (length ?parts) else []) @ payload
           \<and> encode_utf8 payload = Inr payload_bytes
           \<and> length payload_bytes \<le> 2300
           \<and> encode_utf8 (?parts ! i) = Inr segment_bytes
           \<and> length segment_bytes =
               (if length ?parts > 1 then length (part_prefix i (length ?parts)) else 0)
               + length payload_bytes"
    by (rule segment_payload_within_budget [OF level_M])
  from this [rule_format, of 0] show ?thesis
    by (simp add: numeral_2_eq_2 del: replicate.simps)
qed

section \<open>Reassembling the text\<close>

text \<open>
  Claim C1 on the code: for 1533 copies of U+4E2D (three bytes each, 4599 bytes) at
  level \<open>M\<close>, two windows are planned; each is cut back from 2300 to 2298 bytes to end
  on a character boundary, so the two payloads hold 766 characters each and the last
  character of the text is in no segment.
\<close>

theorem split_text_drops_tail:
  "split_text default_converter (replicate 1533 0x4E2D) =
     Inr [lit ''[1/2]'' @ [0x0A] @ replicate 766 0x4E2D,
          lit ''[2/2]'' @ [0x0A] @ replicate 766 0x4E2D]
   \<and> replicate 766 0x4E2D @ replicate 766 0x4E2D = replicate 1532 (0x4E2D :: nat)
   \<and> replicate 1532 0x4E2D \<noteq> replicate 1533 (0x4E2D :: nat)
   \<and> get_text_info default_converter (replicate 1533 0x4E2D) =
       Inr \<lparr>char_count = 1533, byte_count = 4599, max_bytes_per_qr = 2300,
            num_qrcodes = 2, error_correction = ''M''\<rparr>"
proof -
  have c: "encodable 0x4E2D" and l: "length (utf8_char 0x4E2D) = 3"
    by (simp_all add: encodable_def utf8_char_def)
  have two: "ceil_div (1533 * 3) 2300 = 2"
    by (simp add: ceil_div_eq)
  have "(2300 :: nat) < 1533 * 3"
    by simp
  with c l two have "split_text default_converter (replicate 1533 0x4E2D) =
           Inr [part_prefix 0 2 @ replicate (min 1533 (2300 div 3)) 0x4E2D,
                part_prefix 1 2 @ replicate (min (1533 - 2300 div 3) (2300 div 3)) 0x4E2D]"
    by (rule split_text_replicate_2 [OF level_M])
  then have "split_text default_converter (replicate 1533 0x4E2D) =
     Inr [lit ''[1/2]'' @ [0x0A] @ replicate 766 0x4E2D,
          lit ''[2/2]'' @ [0x0A] @ replicate 766 0x4E2D]"
    by (simp add: part_prefix_1_2 part_prefix_2_2 del: replicate.simps)
  moreover have "replicate 766 0x4E2D @ replicate 766 0x4E2D = replicate 1532 (0x4E2D :: nat)"
    by (simp add: replicate_add [symmetric] del: replicate.simps)
  moreover have "replicate 1532 0x4E2D \<noteq> replicate 1533 (0x4E2D :: nat)"
  proof
    assume "replicate 1532 0x4E2D = replicate 1533 (0x4E2D :: nat)"
    then have "length (replicate 1532 (0x4E2D :: nat)) = length (replicate 1533 (0x4E2D :: nat))"
      by (rule arg_cong)
    then show False by simp
  qed
  moreover have "get_text_info default_converter (replicate 1533 0x4E2D) =
       Inr \<lparr>char_count = 1533, byte_count = 4599, max_bytes_per_qr = 2300,
            num_qrcodes = 2, error_correction = ''M''\<rparr>"
  proof -
    have e: "encode_utf8 (replicate 1533 0x4E2D) = Inr (utf8 (replicate 1533 0x4E2D))"
      using c by (simp add: encode_utf8_eq)
    have len: "length (utf8 (replicate 1533 0x4E2D)) = 4599"
      by (simp add: length_utf8_replicate l)
    have lv: "error_correction_level default_converter = ''M''"
      by (simp add: default_converter_def init_def)
    have two': "ceil_div 4599 2300 = 2"
      using two by simp
    have mx: "MAX_BYTES_PER_QR ''M'' = Some 2300"
      by (simp add: MAX_BYTES_PER_QR_def)
    show ?thesis
      by (simp add: get_text_info_def e mx len two' lv del: replicate.simps)
  qed
  ultimately show ?thesis
    by blast
qed

section \<open>The segment count reported by \<open>get_text_info\<close>\<close>

lemma ceil_div_one:
  assumes "0 < a" "a \<le> m"
  shows "ceil_div a m = 1"
proof -
  have m: "0 < m" using assms by simp
  have "(a + m - 1) div m = 1"
  proof (rule div_nat_eqI)
    show "m * 1 \<le> a + m - 1" using assms by simp
    show "a + m - 1 < m * Suc 1" using assms by simp
  qed
  then show ?thesis by (simp add: ceil_div_eq [OF m])
qed

lemma utf8_Nil_iff [simp]: "utf8 t = [] \<longleftrightarrow> t = []"
  by (cases t) simp_all

lemma split_text_cases:
  assumes m: "MAX_BYTES_PER_QR (error_correction_level self) = Some mx"
    and e: "encode_utf8 text = Inr b"
  shows "\<exists>parts. split_text self text = Inr parts
           \<and> length parts = (if length b \<le> mx then 1 else ceil_div (length b) mx)"
proof (cases "length b \<le> mx")
  case True
  then show ?thesis using m e by (simp add: split_text_def)
next
  case False
  then have "mx < length b" by simp
  from split_text_long [OF m e this] False show ?thesis by simp
qed

lemma split_text_nonempty:
  assumes "split_text self text = Inr parts"
  shows "parts \<noteq> []"
proof -
  obtain b where b: "encode_utf8 text = Inr b"
    using assms split_text_Inr_encode by blast
  obtain mx where m: "MAX_BYTES_PER_QR (error_correction_level self) = Some mx"
    using assms by (cases "MAX_BYTES_PER_QR (error_correction_level self)")
      (auto simp: split_text_def)
  have pos: "0 < mx"
    using m by (auto simp: MAX_BYTES_PER_QR_Some)
  have "length parts = (if length b \<le> mx then 1 else ceil_div (length b) mx)"
    using split_text_cases [OF m b] assms by auto
  moreover have "1 < ceil_div (length b) mx" if "\<not> length b \<le> mx"
  proof -
    from that have "mx < length b" by simp
    with pos show ?thesis by (rule ceil_div_gt1)
  qed
  ultimately have "0 < length parts"
    by (cases "length b \<le> mx") auto
  then show ?thesis by simp
qed

lemma images_loop_length:
  "images_loop qr self parts acc = Inr images \<Longrightarrow> length images = length acc + length parts"
  by (induction parts arbitrary: acc) (auto split: sum.splits)

lemma images_loop_returns:
  "\<forall>p\<in>set parts. \<exists>img. generate_qrcode qr self p = Inr img
     \<Longrightarrow> \<exists>images. images_loop qr self parts acc = Inr images"
  by (induction parts arbitrary: acc) auto

text \<open>
  Claim C5, as stated, fails for the empty text: \<open>get_text_info\<close> reports
  \<open>num_qrcodes = 0\<close>, while \<open>split_text\<close> returns one (empty) segment and
  \<open>generate_qrcode_images\<close>, with an encoder that accepts it, a list of length one.
\<close>

theorem empty_text_count_mismatch:
  "get_text_info default_converter [] =
     Inr \<lparr>char_count = 0, byte_count = 0, max_bytes_per_qr = 2300, num_qrcodes = 0,
          error_correction = ''M''\<rparr>
   \<and> split_text default_converter [] = Inr [[]]
   \<and> generate_qrcode_images (\<lambda>ec bs bd p. Inr p) default_converter [] = Inr [([], [])]"
  by (simp add: get_text_info_def split_text_def generate_qrcode_images_def generate_qrcode_def
      default_converter_def init_def MAX_BYTES_PER_QR_def error_correction_map_def ceil_div_def)

text \<open>
  Claim C5, amended to non-empty texts (the front ends reject an empty text before they
  call the converter). For a non-empty encodable text and a defined level,
  \<open>num_qrcodes\<close> of \<open>get_text_info\<close> is the number of segments of \<open>split_text\<close>;
  \<open>generate_qrcode_images\<close> returns a list of that length whenever it returns, and it
  returns when the encoder accepts every segment.
\<close>

theorem segment_count_agrees:
  assumes "MAX_BYTES_PER_QR (error_correction_level self) = Some max_bytes"
    and "encode_utf8 text = Inr text_bytes"
    and "text \<noteq> []"
  shows "\<exists>info parts.
           get_text_info self text = Inr info
           \<and> split_text self text = Inr parts
           \<and> num_qrcodes info = length parts
           \<and> (\<forall>images. generate_qrcode_images qr self text = Inr images
                 \<longrightarrow> length images = length parts)
           \<and> ((\<forall>p\<in>set parts. \<exists>img. generate_qrcode qr self p = Inr img)
                 \<longrightarrow> (\<exists>images. generate_qrcode_images qr self text = Inr images))"
proof -
  obtain parts where parts: "split_text self text = Inr parts"
    and len: "length parts =
      (if length text_bytes \<le> max_bytes then 1 else ceil_div (length text_bytes) max_bytes)"
    using split_text_cases [OF assms(1,2)] by blast
  have "text_bytes = utf8 text"
    using assms(2) by (simp add: encode_utf8_iff)
  then have pos: "0 < length text_bytes"
    using assms(3) by simp
  have info: "get_text_info self text =
      Inr \<lparr>char_count = length text, byte_count = length text_bytes,
           max_bytes_per_qr = max_bytes,
           num_qrcodes = ceil_div (length text_bytes) max_bytes,
           error_correction = error_correction_level self\<rparr>"
    using assms(1,2) by (simp add: get_text_info_def)
  have "ceil_div (length text_bytes) max_bytes = length parts"
    using len pos by (simp add: ceil_div_one)
  moreover have "length images = length parts"
    if "generate_qrcode_images qr self text = Inr images" for images
    using that parts images_loop_length [of qr self parts "[]" images]
    by (simp add: generate_qrcode_images_def)
  moreover have "\<exists>images. generate_qrcode_images qr self text = Inr images"
    if "\<forall>p\<in>set parts. \<exists>img. generate_qrcode qr self p = Inr img"
    using images_loop_returns [OF that, of "[]"] parts
    by (simp add: generate_qrcode_images_def)
  ultimately show ?thesis
    using info parts by auto
qed

theorem segment_count_agrees_witness:
  "\<exists>info parts.
     get_text_info default_converter (lit ''Hello, World!'') = Inr info
     \<and> split_text default_converter (lit ''Hello, World!'') = Inr parts
     \<and> num_qrcodes info = length parts
     \<and> (\<forall>images. generate_qrcode_images (\<lambda>ec bs bd p. Inr p) default_converter
                     (lit ''Hello, World!'') = Inr images
           \<longrightarrow> length images = length parts)
     \<and> ((\<forall>p\<in>set parts. \<exists>img. generate_qrcode (\<lambda>ec bs bd p. Inr p) default_converter p = Inr img)
           \<longrightarrow> (\<exists>images. generate_qrcode_images (\<lambda>ec bs bd p. Inr p) default_converter
                            (lit ''Hello, World!'') = Inr images))"
proof -
  have 2: "encode_utf8 (lit ''Hello, World!'') = Inr (lit ''Hello, World!'')"
    by (simp add: lit_def encodable_def utf8_char_def)
  have 3: "lit ''Hello, World!'' \<noteq> []"
    by (simp add: lit_def)
  show ?thesis
    by (rule segment_count_agrees [OF level_M 2 3])
qed

section \<open>The file names of \<open>text_to_qrcode\<close>\<close>

lemma save_loop_paths:
  "save_loop qr save self output_prefix n ips acc fs = (Inr paths, fs')
     \<Longrightarrow> paths = acc @ map (\<lambda>(i, p). part_filename output_prefix i n) ips"
proof (induction ips arbitrary: acc fs)
  case Nil
  then show ?case by simp
next
  case (Cons ip ips)
  obtain i part where ip: "ip = (i, part)"
    by (cases ip)
  from Cons.prems obtain img fs1 where
    "generate_qrcode qr self part = Inr img"
    "save img (part_filename output_prefix i n) fs = Inr fs1"
    "save_loop qr save self output_prefix n ips (acc @ [part_filename output_prefix i n]) fs1
       = (Inr paths, fs')"
    unfolding ip by (auto simp: Let_def split: sum.splits)
  then show ?case
    using Cons.IH unfolding ip by fastforce
qed

lemma save_loop_returns:
  assumes "\<forall>p\<in>snd ` set ips. \<exists>img. generate_qrcode qr self p = Inr img"
    and "\<forall>img name f. \<exists>f'. save img name f = Inr f'"
  shows "\<exists>paths fs'. save_loop qr save self output_prefix n ips acc fs = (Inr paths, fs')"
  using assms(1)
proof (induction ips arbitrary: acc fs)
  case Nil
  then show ?case by simp
next
  case (Cons ip ips)
  obtain i part where ip: "ip = (i, part)"
    by (cases ip)
  obtain img where img: "generate_qrcode qr self part = Inr img"
    using Cons.prems unfolding ip by auto
  obtain fs1 where fs1: "save img (part_filename output_prefix i n) fs = Inr fs1"
    using assms(2) by blast
  have "\<forall>p\<in>snd ` set ips. \<exists>img. generate_qrcode qr self p = Inr img"
    using Cons.prems by simp
  from Cons.IH [OF this] show ?case
    unfolding ip by (simp add: img fs1 Let_def)
qed

lemma map_index_zip:
  "length ys = n \<Longrightarrow> map (\<lambda>(i, p). f i) (zip [0..<n] ys) = map f [0..<n]"
  by (rule nth_equalityI) simp_all

lemma part_filenames:
  assumes "parts \<noteq> []"
  shows "map (\<lambda>(i, p). part_filename output_prefix i (length parts))
             (zip [0..<length parts] parts) =
         (if length parts > 1
          then map (\<lambda>i. output_prefix @ lit ''_'' @ str_of_nat (i + 1) @ lit ''_of_''
                        @ str_of_nat (length parts) @ lit ''.png'') [0..<length parts]
          else [output_prefix @ lit ''.png''])"
proof (cases "length parts > 1")
  case True
  then show ?thesis
    by (simp add: map_index_zip part_filename_def)
next
  case False
  then obtain p where "parts = [p]"
    using assms by (cases parts) auto
  then show ?thesis
    by (simp add: part_filename_def)
qed

lemma str_of_nat_1: "str_of_nat (Suc 0) = [0x31]"
  and str_of_nat_2: "str_of_nat (Suc (Suc 0)) = [0x32]"
  by (simp_all add: str_of_nat.simps)

text \<open>
  Claim C9. Whenever \<open>text_to_qrcode\<close> returns, the paths are, in segment order,
  \<open><prefix>_<i>_of_<n>.png\<close> with \<open>i\<close> counted from 1 when there is more than one
  segment, and the single path \<open><prefix>.png\<close> when there is one segment; and it does
  return them when the encoder accepts every segment and every file can be written.
\<close>

theorem text_to_qrcode_paths:
  assumes "split_text self text = Inr parts"
  shows "(\<forall>paths fs'. text_to_qrcode qr save self text output_prefix fs = (Inr paths, fs') \<longrightarrow>
            paths =
              (if length parts > 1
               then map (\<lambda>i. output_prefix @ lit ''_'' @ str_of_nat (i + 1) @ lit ''_of_''
                             @ str_of_nat (length parts) @ lit ''.png'') [0..<length parts]
               else [output_prefix @ lit ''.png'']))
         \<and> ((\<forall>p\<in>set parts. \<exists>img. generate_qrcode qr self p = Inr img)
              \<and> (\<forall>img name f. \<exists>f'. save img name f = Inr f') \<longrightarrow>
            (\<exists>fs'. text_to_qrcode qr save self text output_prefix fs =
               (Inr (if length parts > 1
                     then map (\<lambda>i. output_prefix @ lit ''_'' @ str_of_nat (i + 1) @ lit ''_of_''
                                   @ str_of_nat (length parts) @ lit ''.png'') [0..<length parts]
                     else [output_prefix @ lit ''.png'']), fs')))"
proof -
  let ?ips = "zip [0..<length parts] parts"
  let ?expected = "if length parts > 1
               then map (\<lambda>i. output_prefix @ lit ''_'' @ str_of_nat (i + 1) @ lit ''_of_''
                             @ str_of_nat (length parts) @ lit ''.png'') [0..<length parts]
               else [output_prefix @ lit ''.png'']"
  have ne: "parts \<noteq> []"
    using assms by (rule split_text_nonempty)
  have run: "text_to_qrcode qr save self text output_prefix fs =
               save_loop qr save self output_prefix (length parts) ?ips [] fs"
    using assms by (simp add: text_to_qrcode_def)
  have 1: "paths = ?expected"
    if "text_to_qrcode qr save self text output_prefix fs = (Inr paths, fs')" for paths fs'
    using save_loop_paths [of qr save self output_prefix "length parts" ?ips "[]" fs paths fs']
      that part_filenames [OF ne, of output_prefix]
    unfolding run by simp
  have 2: "\<exists>fs'. text_to_qrcode qr save self text output_prefix fs = (Inr ?expected, fs')"
    if g: "\<forall>p\<in>set parts. \<exists>img. generate_qrcode qr self p = Inr img"
      and s: "\<forall>img name f. \<exists>f'. save img name f = Inr f'"
  proof -
    have "snd ` set ?ips \<subseteq> set parts"
      by (auto dest: set_zip_rightD)
    with g have "\<forall>p\<in>snd ` set ?ips. \<exists>img. generate_qrcode qr self p = Inr img"
      by blast
    then obtain paths fs' where
      r: "text_to_qrcode qr save self text output_prefix fs = (Inr paths, fs')"
      using save_loop_returns [OF _ s, of ?ips qr self output_prefix "length parts" "[]" fs]
      unfolding run by blast
    with 1 show ?thesis
      by blast
  qed
  from 1 2 show ?thesis
    by blast
qed

theorem text_to_qrcode_paths_witness:
  "(\<exists>fs'. text_to_qrcode (\<lambda>ec bs bd p. Inr p) (\<lambda>img name f. Inr (name # f)) default_converter
            (lit ''Hello, World!'') (lit ''qrcode'') [] = (Inr [lit ''qrcode.png''], fs'))
   \<and> (\<exists>fs'. text_to_qrcode (\<lambda>ec bs bd p. Inr p) (\<lambda>img name f. Inr (name # f)) default_converter
            (replicate 2301 0x61) (lit ''qrcode'') [] =
              (Inr [lit ''qrcode_1_of_2.png'', lit ''qrcode_2_of_2.png''], fs'))"
proof -
  let ?qr = "\<lambda>(ec :: ec_constant) (bs :: int) (bd :: int) (p :: str). (Inr p :: error + str)"
  let ?save = "\<lambda>(img :: str) (name :: str) (f :: str list). (Inr (name # f) :: error + str list)"
  have g: "\<forall>p\<in>set parts. \<exists>img. generate_qrcode ?qr default_converter p = Inr img" for parts
    by (simp add: generate_qrcode_def default_converter_def init_def error_correction_map_def)
  have s: "\<forall>img name f. \<exists>f'. ?save img name f = Inr f'"
    by simp
  have one: "split_text default_converter (lit ''Hello, World!'') = Inr [lit ''Hello, World!'']"
    by (simp add: split_text_def level_M lit_def encodable_def utf8_char_def)
  have "encodable 0x61" "length (utf8_char 0x61) = 1"
    by (simp_all add: encodable_def utf8_char_def)
  moreover have "ceil_div (2301 * 1) 2300 = 2"
    by (simp add: ceil_div_eq)
  moreover have "(2300 :: nat) < 2301 * 1"
    by simp
  ultimately have two: "split_text default_converter (replicate 2301 0x61) =
           Inr [part_prefix 0 2 @ replicate (min 2301 (2300 div 1)) 0x61,
                part_prefix 1 2 @ replicate (min (2301 - 2300 div 1) (2300 div 1)) 0x61]"
    by (rule split_text_replicate_2 [OF level_M])
  note p1 = text_to_qrcode_paths [OF one, of ?qr ?save "lit ''qrcode''" "[]",
      THEN conjunct2, THEN mp, OF conjI [OF g s]]
  note p2 = text_to_qrcode_paths [OF two, of ?qr ?save "lit ''qrcode''" "[]",
      THEN conjunct2, THEN mp, OF conjI [OF g s]]
  have "\<exists>fs'. text_to_qrcode ?qr ?save default_converter (lit ''Hello, World!'') (lit ''qrcode'') []
          = (Inr [lit ''qrcode.png''], fs')"
    using p1 by (simp add: lit_def)
  moreover have "\<exists>fs'. text_to_qrcode ?qr ?save default_converter (replicate 2301 0x61)
          (lit ''qrcode'') [] = (Inr [lit ''qrcode_1_of_2.png'', lit ''qrcode_2_of_2.png''], fs')"
    using p2 by (simp add: lit_def str_of_nat_1 str_of_nat_2 del: replicate.simps)
  ultimately show ?thesis
    by blast
qed

end
